theory Spec2Isabelle
  imports Complex_Main "HOL-Library.Multiset" "HOL-Library.Log_Nat"
begin

section \<open>Leaf and Node\<close>

text \<open>
  \<^verbatim>\<open>tree.ts\<close> imports \<^verbatim>\<open>Leaf\<close> from \<^verbatim>\<open>./leaf\<close> and \<^verbatim>\<open>Node\<close> from \<^verbatim>\<open>./node\<close>.
  The tree reads \<^verbatim>\<open>leaf.value\<close>, builds \<^verbatim>\<open>new Node(leaf.value)\<close>, and calls
  \<^verbatim>\<open>a.gte(b)\<close>, \<^verbatim>\<open>node.eq(other)\<close> and \<^verbatim>\<open>node.hash(other)\<close>.
  A leaf is a record of an opaque payload and its commitment value; a node wraps one
  commitment value of type \<open>'h\<close>.
\<close>

record ('p, 'h) leaf =
  payload :: 'p
  "value" :: 'h

datatype 'h node = Node (node_value: 'h)

text \<open>
  Modelled from the spec: \<^verbatim>\<open>Node.eq\<close> lives in \<^verbatim>\<open>./node\<close>; the spec gives it as
  "equals(other) -> bool (structural equality on the underlying value)".
\<close>

definition node_eq :: "'h node \<Rightarrow> 'h node \<Rightarrow> bool" where
  "node_eq a b = (node_value a = node_value b)"

text \<open>
  Modelled from the spec: \<^verbatim>\<open>Node.hash\<close> lives in \<^verbatim>\<open>./node\<close>; the spec gives it as
  "combine(self, sibling) -> Node: deterministically derives a parent node from two child
  nodes, in the given argument order (left = self, right = sibling)", a pluggable function of
  the two values. The combining function on values is the parameter \<open>cmb\<close> of everything below.
\<close>

definition node_hash :: "('h \<Rightarrow> 'h \<Rightarrow> 'h) \<Rightarrow> 'h node \<Rightarrow> 'h node \<Rightarrow> 'h node" where
  "node_hash cmb a b = Node (cmb (node_value a) (node_value b))"

text \<open>
  Modelled from the spec: \<^verbatim>\<open>Leaf.gte\<close> lives in \<^verbatim>\<open>./leaf\<close>; the spec gives the leaf order
  as "compare(other) -> ordering: total order over the commitment value", an "explicit
  ordering function returning {less, equal, greater} (or a signed integer)".
  The constructor below takes the comparator as a parameter; this is the instance the
  spec describes.
\<close>

definition leaf_compare :: "('p, 'h::linorder) leaf \<Rightarrow> ('p, 'h) leaf \<Rightarrow> int" where
  "leaf_compare a b = (if value a < value b then - 1 else if value a = value b then 0 else 1)"

section \<open>The JavaScript array operations the tree uses\<close>

text \<open>\<^verbatim>\<open>xs[k]\<close>: \<^verbatim>\<open>undefined\<close> (here \<open>None\<close>) for a negative or too large index.\<close>

definition js_index :: "'a list \<Rightarrow> int \<Rightarrow> 'a option" where
  "js_index xs k = (if 0 \<le> k \<and> k < int (length xs) then Some (xs ! nat k) else None)"

text \<open>\<^verbatim>\<open>xs.findIndex(p)\<close>: the first index whose element satisfies \<open>p\<close>, or \<open>-1\<close>.\<close>

fun findIndex_from :: "('a \<Rightarrow> bool) \<Rightarrow> 'a list \<Rightarrow> int \<Rightarrow> int" where
  "findIndex_from p [] k = - 1"
| "findIndex_from p (x # xs) k = (if p x then k else findIndex_from p xs (k + 1))"

definition findIndex :: "('a \<Rightarrow> bool) \<Rightarrow> 'a list \<Rightarrow> int" where
  "findIndex p xs = findIndex_from p xs 0"

text \<open>\<^verbatim>\<open>a % b\<close>: the remainder takes the sign of the dividend, so \<^verbatim>\<open>-1 % 2\<close> is \<open>-1\<close>.\<close>

definition js_rem :: "int \<Rightarrow> int \<Rightarrow> int" where
  "js_rem a b = sgn a * (\<bar>a\<bar> mod \<bar>b\<bar>)"

text \<open>
  \<^verbatim>\<open>xs.sort(cmp)\<close>: ECMAScript requires a stable sort that places \<open>a\<close> before \<open>b\<close> when
  \<open>cmp a b < 0\<close>, for a consistent comparator; the order is implementation-defined otherwise.
  The model is the stable insertion sort driven by the sign of the comparator.
\<close>

fun sort_insert :: "('a \<Rightarrow> 'a \<Rightarrow> int) \<Rightarrow> 'a \<Rightarrow> 'a list \<Rightarrow> 'a list" where
  "sort_insert cmp x [] = [x]"
| "sort_insert cmp x (y # ys) = (if cmp x y \<le> 0 then x # y # ys else y # sort_insert cmp x ys)"

definition js_sort :: "('a \<Rightarrow> 'a \<Rightarrow> int) \<Rightarrow> 'a list \<Rightarrow> 'a list" where
  "js_sort cmp xs = foldr (sort_insert cmp) xs []"

text \<open>
  \<^verbatim>\<open>Math.ceil(Math.log2(n))\<close> for an array length \<open>n\<close>: the least \<open>k\<close> with \<open>n \<le> 2 ^ k\<close>,
  found by counting up; lemma \<open>ceil_log2_is_ceiling_log2\<close> below relates it to the real
  logarithm. (For \<open>n = 0\<close> JavaScript yields \<open>-Infinity\<close>; \<open>prove\<close> throws before using it,
  and the model yields \<open>0\<close>.)
\<close>

function ceil_log2_from :: "nat \<Rightarrow> nat \<Rightarrow> nat" where
  "ceil_log2_from k n = (if n \<le> 2 ^ k then k else ceil_log2_from (Suc k) n)"
  by pat_completeness auto
termination
proof (relation "measure (\<lambda>(k, n). n - 2 ^ k)")
  show "wf (measure (\<lambda>(k, n :: nat). n - 2 ^ k))" by simp
next
  fix k n :: nat
  assume "\<not> n \<le> 2 ^ k"
  moreover have "(0::nat) < 2 ^ k" by simp
  ultimately have "n - 2 * 2 ^ k < n - 2 ^ k" by linarith
  then show "((Suc k, n), (k, n)) \<in> measure (\<lambda>(k, n). n - 2 ^ k)" by simp
qed

declare ceil_log2_from.simps [simp del]

definition ceil_log2 :: "nat \<Rightarrow> nat" where
  "ceil_log2 n = ceil_log2_from 0 n"

section \<open>The tree\<close>

text \<open>
  Arrays are objects: the constructor sorts the array it is given in place and keeps a
  reference to it. A heap maps array addresses to their contents; a tree holds the address
  of its \<^verbatim>\<open>leaves\<close> array.
\<close>

type_synonym addr = nat

type_synonym ('p, 'h) heap = "addr \<Rightarrow> ('p, 'h) leaf list"

record tree =
  leaves :: addr

datatype error = Error string

text \<open>\<^verbatim>\<open>constructor(leaves) { this.leaves = leaves.sort((a, b) => a.gte(b)) }\<close>\<close>

definition Tree_new ::
  "(('p, 'h) leaf \<Rightarrow> ('p, 'h) leaf \<Rightarrow> int) \<Rightarrow> addr \<Rightarrow> ('p, 'h) heap \<Rightarrow> tree \<times> ('p, 'h) heap" where
  "Tree_new gte ls \<sigma> = (\<lparr>leaves = ls\<rparr>, \<sigma>(ls := js_sort gte (\<sigma> ls)))"

subsection \<open>root\<close>

text \<open>
  The inner \<^verbatim>\<open>for\<close> loop of \<^verbatim>\<open>root\<close>: \<open>i\<close> steps by two; when \<^verbatim>\<open>nodes[i + 1]\<close> is
  \<^verbatim>\<open>undefined\<close> the node at \<open>i\<close> is pushed as it is and the loop breaks.
\<close>

function root_for :: "('h \<Rightarrow> 'h \<Rightarrow> 'h) \<Rightarrow> 'h node list \<Rightarrow> nat \<Rightarrow> 'h node list \<Rightarrow> 'h node list" where
  "root_for cmb nodes i temp =
     (if i < length nodes then
        (case js_index nodes (int i + 1) of
           None \<Rightarrow> temp @ [nodes ! i]
         | Some r \<Rightarrow> root_for cmb nodes (i + 2) (temp @ [node_hash cmb (nodes ! i) r]))
      else temp)"
  by pat_completeness auto
termination
  by (relation "measure (\<lambda>(cmb, nodes, i, temp). length nodes - i)") auto

declare root_for.simps [simp del]

lemma length_root_for:
  "i \<le> length nodes \<Longrightarrow>
   length (root_for cmb nodes i temp) = length temp + (length nodes - i + 1) div 2"
proof (induction cmb nodes i temp rule: root_for.induct)
  case (1 cmb nodes i temp)
  show ?case
  proof (cases "i < length nodes")
    case False
    then show ?thesis by (subst root_for.simps) simp
  next
    case True
    show ?thesis
    proof (cases "js_index nodes (int i + 1)")
      case None
      then have "length nodes = i + 1"
        using True by (auto simp: js_index_def split: if_splits)
      with None True show ?thesis by (subst root_for.simps) simp
    next
      case (Some r)
      then have le: "i + 2 \<le> length nodes"
        by (auto simp: js_index_def split: if_splits)
      have "length (root_for cmb nodes (i + 2) (temp @ [node_hash cmb (nodes ! i) r])) =
            length (temp @ [node_hash cmb (nodes ! i) r]) + (length nodes - (i + 2) + 1) div 2"
        using "1.IH" [OF True Some le] .
      moreover have "(length nodes - i + 1) div 2 = Suc ((length nodes - (i + 2) + 1) div 2)"
        using le by linarith
      ultimately show ?thesis using True Some by (subst root_for.simps) simp
    qed
  qed
qed

text \<open>The \<^verbatim>\<open>while (nodes.length > 1)\<close> loop of \<^verbatim>\<open>root\<close>.\<close>

function root_while :: "('h \<Rightarrow> 'h \<Rightarrow> 'h) \<Rightarrow> 'h node list \<Rightarrow> 'h node list" where
  "root_while cmb nodes =
     (if length nodes > 1 then root_while cmb (root_for cmb nodes 0 []) else nodes)"
  by pat_completeness auto
termination
proof (relation "measure (\<lambda>(cmb, nodes). length nodes)")
  show "wf (measure (\<lambda>(cmb :: 'h \<Rightarrow> 'h \<Rightarrow> 'h, nodes :: 'h node list). length nodes))" by simp
next
  fix cmb :: "'h \<Rightarrow> 'h \<Rightarrow> 'h" and nodes :: "'h node list"
  assume "1 < length nodes"
  then have "length (root_for cmb nodes 0 []) < length nodes"
    by (simp add: length_root_for)
  then show "((cmb, root_for cmb nodes 0 []), (cmb, nodes)) \<in> measure (\<lambda>(cmb, nodes). length nodes)"
    by simp
qed

declare root_while.simps [simp del]

text \<open>The number of passes the \<^verbatim>\<open>while\<close> loop of \<^verbatim>\<open>root\<close> makes: the height of the reduction.\<close>

function root_while_steps :: "('h \<Rightarrow> 'h \<Rightarrow> 'h) \<Rightarrow> 'h node list \<Rightarrow> nat" where
  "root_while_steps cmb nodes =
     (if length nodes > 1 then Suc (root_while_steps cmb (root_for cmb nodes 0 [])) else 0)"
  by pat_completeness auto
termination
  by (relation "measure (\<lambda>(cmb, nodes). length nodes)") (auto simp: length_root_for)

declare root_while_steps.simps [simp del]

text \<open>The getter \<^verbatim>\<open>root\<close>, on the contents of \<^verbatim>\<open>this.leaves\<close>.\<close>

definition root :: "('h \<Rightarrow> 'h \<Rightarrow> 'h) \<Rightarrow> ('p, 'h) leaf list \<Rightarrow> error + 'h node" where
  "root cmb ls =
     (let nodes = map (\<lambda>leaf. Node (value leaf)) ls in
      if length nodes = 0 then Inl (Error ''Cannot generate merkle root from empty tree.'')
      else if length nodes = 1 then Inr (nodes ! 0)
      else Inr (root_while cmb nodes ! 0))"

subsection \<open>prove\<close>

text \<open>
  Step 2 of \<^verbatim>\<open>prove\<close>: the right neighbour when the index is even and a right neighbour
  exists, otherwise \<^verbatim>\<open>nodes[provedIdx - 1]\<close>, which is \<^verbatim>\<open>undefined\<close> for the indices
  \<open>0\<close> and \<open>-1\<close>.
\<close>

definition find_sibling :: "'h node list \<Rightarrow> int \<Rightarrow> 'h node option" where
  "find_sibling nodes provedIdx =
     (if js_rem provedIdx 2 = 0 \<and> provedIdx + 1 < int (length nodes)
      then js_index nodes (provedIdx + 1)
      else js_index nodes (provedIdx - 1))"

text \<open>Step 4 of \<^verbatim>\<open>prove\<close>: the next level, without a \<^verbatim>\<open>break\<close>.\<close>

function prove_for :: "('h \<Rightarrow> 'h \<Rightarrow> 'h) \<Rightarrow> 'h node list \<Rightarrow> nat \<Rightarrow> 'h node list \<Rightarrow> 'h node list" where
  "prove_for cmb nodes i nextLevel =
     (if i < length nodes then
        (if i + 1 < length nodes
         then prove_for cmb nodes (i + 2) (nextLevel @ [node_hash cmb (nodes ! i) (nodes ! (i + 1))])
         else prove_for cmb nodes (i + 2) (nextLevel @ [nodes ! i]))
      else nextLevel)"
  by pat_completeness auto
termination
  by (relation "measure (\<lambda>(cmb, nodes, i, nextLevel). length nodes - i)") auto

declare prove_for.simps [simp del]

text \<open>
  The loop \<^verbatim>\<open>for (let i = 0; i < merkleTreeLevel; i++)\<close> with its four steps. The state
  is the current level \<open>nodes\<close>, the node under proof and the proof built so far.
\<close>

function prove_loop ::
  "('h \<Rightarrow> 'h \<Rightarrow> 'h) \<Rightarrow> nat \<Rightarrow> nat \<Rightarrow> 'h node list \<Rightarrow> 'h node \<Rightarrow> 'h node list \<Rightarrow> 'h node list" where
  "prove_loop cmb merkleTreeLevel i nodes nodeProved prf =
     (if i < merkleTreeLevel then
        (let provedIdx = findIndex (\<lambda>node. node_eq node nodeProved) nodes;
             sibling = find_sibling nodes provedIdx;
             nextLevel = prove_for cmb nodes 0 []
         in case sibling of
              Some s \<Rightarrow> prove_loop cmb merkleTreeLevel (i + 1) nextLevel
                          (node_hash cmb nodeProved s) (prf @ [s])
            | None \<Rightarrow> prove_loop cmb merkleTreeLevel (i + 1) nextLevel nodeProved prf)
      else prf)"
  by pat_completeness auto
termination
  by (relation "measure (\<lambda>(cmb, merkleTreeLevel, i, nodes, nodeProved, prf). merkleTreeLevel - i)")
     auto

declare prove_loop.simps [simp del]

definition prove :: "('h \<Rightarrow> 'h \<Rightarrow> 'h) \<Rightarrow> ('p, 'h) leaf list \<Rightarrow> ('p, 'h) leaf \<Rightarrow> error + 'h node list" where
  "prove cmb ls leaf =
     (let nodes = map (\<lambda>leaf. Node (value leaf)) ls;
          nodeProved = Node (value leaf);
          merkleTreeLevel = ceil_log2 (length nodes)
      in if length nodes = 0 then Inl (Error ''Cannot find prove from empty tree!'')
         else if length nodes = 1 then Inr []
         else Inr (prove_loop cmb merkleTreeLevel 0 nodes nodeProved []))"

subsection \<open>verify\<close>

text \<open>\<^verbatim>\<open>for (let i = 0; i < proof.length; i++) node = node.hash(proof[i])\<close>\<close>

fun verify_for :: "('h \<Rightarrow> 'h \<Rightarrow> 'h) \<Rightarrow> 'h node \<Rightarrow> 'h node list \<Rightarrow> 'h node" where
  "verify_for cmb node [] = node"
| "verify_for cmb node (p # prf) = verify_for cmb (node_hash cmb node p) prf"

text \<open>\<^verbatim>\<open>return this.root.eq(node)\<close>: an error thrown by the getter \<^verbatim>\<open>root\<close> propagates.\<close>

definition verify ::
  "('h \<Rightarrow> 'h \<Rightarrow> 'h) \<Rightarrow> ('p, 'h) leaf list \<Rightarrow> ('p, 'h) leaf \<Rightarrow> 'h node list \<Rightarrow> error + bool" where
  "verify cmb ls leaf prf =
     (let node = verify_for cmb (Node (value leaf)) prf
      in case root cmb ls of Inl e \<Rightarrow> Inl e | Inr r \<Rightarrow> Inr (node_eq r node))"

subsection \<open>The methods on a tree in a heap\<close>

text \<open>
  Each method reads the array behind \<^verbatim>\<open>this.leaves\<close> (\<^verbatim>\<open>map\<close> copies it) and writes
  nothing to the heap; it returns its result and the heap.
\<close>

definition Tree_root ::
  "('h \<Rightarrow> 'h \<Rightarrow> 'h) \<Rightarrow> tree \<Rightarrow> ('p, 'h) heap \<Rightarrow> (error + 'h node) \<times> ('p, 'h) heap" where
  "Tree_root cmb t \<sigma> = (root cmb (\<sigma> (leaves t)), \<sigma>)"

definition Tree_prove ::
  "('h \<Rightarrow> 'h \<Rightarrow> 'h) \<Rightarrow> tree \<Rightarrow> ('p, 'h) leaf \<Rightarrow> ('p, 'h) heap \<Rightarrow> (error + 'h node list) \<times> ('p, 'h) heap" where
  "Tree_prove cmb t leaf \<sigma> = (prove cmb (\<sigma> (leaves t)) leaf, \<sigma>)"

definition Tree_verify ::
  "('h \<Rightarrow> 'h \<Rightarrow> 'h) \<Rightarrow> tree \<Rightarrow> ('p, 'h) leaf \<Rightarrow> 'h node list \<Rightarrow> ('p, 'h) heap \<Rightarrow> (error + bool) \<times> ('p, 'h) heap" where
  "Tree_verify cmb t leaf prf \<sigma> = (verify cmb (\<sigma> (leaves t)) leaf prf, \<sigma>)"

section \<open>The reduction as the spec words it\<close>

text \<open>
  "Scan left to right in steps of two; combine node[i] with node[i+1] when a pair exists;
  if an odd node has no right partner, carry it forward unchanged into the next level.
  Repeat until exactly one node remains; that node is the root."
\<close>

fun spec_level :: "('h \<Rightarrow> 'h \<Rightarrow> 'h) \<Rightarrow> 'h node list \<Rightarrow> 'h node list" where
  "spec_level cmb (a # b # rest) = node_hash cmb a b # spec_level cmb rest"
| "spec_level cmb [a] = [a]"
| "spec_level cmb [] = []"

lemma length_spec_level: "length (spec_level cmb nodes) = (length nodes + 1) div 2"
  by (induction cmb nodes rule: spec_level.induct) simp_all

function spec_reduce :: "('h \<Rightarrow> 'h \<Rightarrow> 'h) \<Rightarrow> 'h node list \<Rightarrow> 'h node list" where
  "spec_reduce cmb nodes =
     (if length nodes \<le> 1 then nodes else spec_reduce cmb (spec_level cmb nodes))"
  by pat_completeness auto
termination
  by (relation "measure (\<lambda>(cmb, nodes). length nodes)") (auto simp: length_spec_level)

declare spec_reduce.simps [simp del]

text \<open>
  "The number of levels at which that leaf's node actually had a pairing partner": in a
  level of \<open>n\<close> nodes the node at position \<open>pos\<close> has a partner unless it is the last node
  of an odd level; its parent sits at position \<open>pos div 2\<close> of the next level, which has
  \<open>(n + 1) div 2\<close> nodes.
\<close>

function paired_levels :: "nat \<Rightarrow> nat \<Rightarrow> nat" where
  "paired_levels n pos =
     (if n \<le> 1 then 0
      else (if even pos \<and> pos + 1 = n then 0 else 1) + paired_levels ((n + 1) div 2) (pos div 2))"
  by pat_completeness auto
termination
  by (relation "measure (\<lambda>(n, pos). n)") auto

declare paired_levels.simps [simp del]

section \<open>The loops of the source compute the reduction\<close>

lemma js_index_Some_iff: "js_index xs (int i + 1) = Some r \<longleftrightarrow> i + 1 < length xs \<and> r = xs ! (i + 1)"
  by (auto simp: js_index_def nat_add_distrib)

lemma js_index_None_iff: "js_index xs (int i + 1) = None \<longleftrightarrow> length xs \<le> i + 1"
  by (auto simp: js_index_def)

lemma spec_level_drop_pair:
  "i + 1 < length nodes \<Longrightarrow>
   spec_level cmb (drop i nodes) = node_hash cmb (nodes ! i) (nodes ! (i + 1)) # spec_level cmb (drop (i + 2) nodes)"
proof -
  assume a: "i + 1 < length nodes"
  then have "drop i nodes = nodes ! i # drop (Suc i) nodes"
    by (simp add: Cons_nth_drop_Suc [symmetric])
  moreover from a have "drop (Suc i) nodes = nodes ! (i + 1) # drop (i + 2) nodes"
    by (simp add: Cons_nth_drop_Suc [symmetric])
  ultimately show ?thesis by simp
qed

lemma spec_level_drop_last:
  "i < length nodes \<Longrightarrow> length nodes \<le> i + 1 \<Longrightarrow> spec_level cmb (drop i nodes) = [nodes ! i]"
proof -
  assume a: "i < length nodes" "length nodes \<le> i + 1"
  then have "drop i nodes = nodes ! i # drop (Suc i) nodes"
    by (simp add: Cons_nth_drop_Suc [symmetric])
  moreover from a have "drop (Suc i) nodes = []" by simp
  ultimately show ?thesis by simp
qed

lemma root_for_spec_level:
  "root_for cmb nodes i temp = temp @ spec_level cmb (drop i nodes)"
proof (induction cmb nodes i temp rule: root_for.induct)
  case (1 cmb nodes i temp)
  show ?case
  proof (cases "i < length nodes")
    case False
    then show ?thesis by (subst root_for.simps) simp
  next
    case True
    show ?thesis
    proof (cases "js_index nodes (int i + 1)")
      case None
      then have "length nodes \<le> i + 1" by (simp add: js_index_None_iff)
      with True None show ?thesis
        by (subst root_for.simps) (simp add: spec_level_drop_last)
    next
      case (Some r)
      then have lt: "i + 1 < length nodes" and r: "r = nodes ! (i + 1)"
        by (simp_all add: js_index_Some_iff)
      from "1.IH" [OF True Some] lt r True Some show ?thesis
        by (subst root_for.simps) (simp add: spec_level_drop_pair)
    qed
  qed
qed

lemma prove_for_spec_level:
  "prove_for cmb nodes i nextLevel = nextLevel @ spec_level cmb (drop i nodes)"
proof (induction cmb nodes i nextLevel rule: prove_for.induct)
  case (1 cmb nodes i nextLevel)
  show ?case
  proof (cases "i < length nodes")
    case False
    then show ?thesis by (subst prove_for.simps) simp
  next
    case True
    show ?thesis
    proof (cases "i + 1 < length nodes")
      case lt: True
      from "1.IH"(1) [OF True lt] True lt show ?thesis
        by (subst prove_for.simps) (simp add: spec_level_drop_pair)
    next
      case ge: False
      from "1.IH"(2) [OF True ge] True ge show ?thesis
        by (subst prove_for.simps) (simp add: spec_level_drop_last)
    qed
  qed
qed

lemma root_while_spec_reduce: "root_while cmb nodes = spec_reduce cmb nodes"
proof (induction cmb nodes rule: root_while.induct)
  case (1 cmb nodes)
  show ?case
  proof (cases "1 < length nodes")
    case True
    with "1.IH" show ?thesis
      by (subst root_while.simps, subst spec_reduce.simps) (simp add: root_for_spec_level)
  next
    case False
    then show ?thesis
      by (subst root_while.simps, subst spec_reduce.simps) simp
  qed
qed

lemma length_spec_reduce: "nodes \<noteq> [] \<Longrightarrow> length (spec_reduce cmb nodes) = 1"
proof (induction cmb nodes rule: spec_reduce.induct)
  case (1 cmb nodes)
  show ?case
  proof (cases "length nodes \<le> 1")
    case True
    with "1.prems" have "length nodes = 1" by (cases nodes) simp_all
    with True show ?thesis by (subst spec_reduce.simps) simp
  next
    case False
    then have "spec_level cmb nodes \<noteq> []"
      using length_spec_level [of cmb nodes] by auto
    with "1.IH" False show ?thesis by (subst spec_reduce.simps) simp
  qed
qed

lemma root_eq_spec_reduce:
  "2 \<le> length ls \<Longrightarrow>
   root cmb ls = Inr (spec_reduce cmb (map (\<lambda>leaf. Node (value leaf)) ls) ! 0)"
  by (auto simp: root_def Let_def root_while_spec_reduce)

lemma spec_reduce_three:
  "spec_reduce cmb [a, b, c] = [node_hash cmb (node_hash cmb a b) c]"
  by (simp add: spec_reduce.simps)

section \<open>Concrete leaves for the examples\<close>

text \<open>
  Leaves with natural numbers as commitment values and no payload; the stand-in combining
  function \<open>pair_hash\<close> is the Cantor pairing function, which is injective and
  order-sensitive.
\<close>

definition lf :: "nat \<Rightarrow> (unit, nat) leaf" where
  "lf v = \<lparr>payload = (), value = v\<rparr>"

definition pair_hash :: "nat \<Rightarrow> nat \<Rightarrow> nat" where
  "pair_hash x y = (x + y) * (x + y + 1) div 2 + y"

definition heap0 :: "(unit, nat) heap" where
  "heap0 = (\<lambda>a. [])"

definition heap1 :: "(unit, nat) heap" where
  "heap1 = heap0(0 := [lf 5])"

definition heap3 :: "(unit, nat) heap" where
  "heap3 = heap0(0 := [lf 1, lf 2, lf 3])"

definition heap_unsorted :: "(unit, nat) heap" where
  "heap_unsorted = heap0(0 := [lf 3, lf 1, lf 2])"

definition heap7 :: "(unit, nat) heap" where
  "heap7 = heap0(0 := [lf 1, lf 2, lf 3, lf 4, lf 5, lf 6, lf 7])"

text \<open>The tree constructed over the array \<open>[lf 1, lf 2, lf 3]\<close>, and the heap after construction.\<close>

definition tree3 :: tree where
  "tree3 = fst (Tree_new leaf_compare 0 heap3)"

definition sorted3 :: "(unit, nat) heap" where
  "sorted3 = snd (Tree_new leaf_compare 0 heap3)"

text \<open>The same over the seven leaves of \<open>heap7\<close>.\<close>

definition tree7 :: tree where
  "tree7 = fst (Tree_new leaf_compare 0 heap7)"

definition sorted7 :: "(unit, nat) heap" where
  "sorted7 = snd (Tree_new leaf_compare 0 heap7)"

section \<open>Basic facts about the methods\<close>

lemma node_eq_iff: "node_eq a b \<longleftrightarrow> a = b"
  by (auto simp: node_eq_def node.expand)

lemma verify_for_foldl: "verify_for cmb node prf = foldl (node_hash cmb) node prf"
  by (induction "prf" arbitrary: node) simp_all

lemma root_empty_iff:
  "root cmb ls = Inl e \<longleftrightarrow> ls = [] \<and> e = Error ''Cannot generate merkle root from empty tree.''"
  by (auto simp: root_def Let_def)

lemma prove_empty_iff:
  "prove cmb ls leaf = Inl e \<longleftrightarrow> ls = [] \<and> e = Error ''Cannot find prove from empty tree!''"
  by (auto simp: prove_def Let_def)

section \<open>Sorting\<close>

lemma mset_sort_insert: "mset (sort_insert cmp x ys) = add_mset x (mset ys)"
  by (induction ys) simp_all

lemma mset_js_sort: "mset (js_sort cmp xs) = mset xs"
  by (induction xs) (simp_all add: js_sort_def mset_sort_insert)

lemma set_sort_insert: "set (sort_insert cmp x ys) = insert x (set ys)"
  by (induction ys) auto

lemma leaf_compare_le0: "leaf_compare a b \<le> 0 \<longleftrightarrow> value a \<le> value b"
  by (auto simp: leaf_compare_def)

lemma sorted_sort_insert:
  "sorted (map value ys) \<Longrightarrow> sorted (map value (sort_insert leaf_compare x ys))"
proof (induction ys)
  case Nil
  show ?case by simp
next
  case (Cons y ys)
  show ?case
  proof (cases "value x \<le> value y")
    case True
    with Cons.prems show ?thesis
      by (auto simp: leaf_compare_le0)
  next
    case False
    then have "value y \<le> value x" by simp
    with Cons False show ?thesis
      by (auto simp: leaf_compare_le0 set_sort_insert)
  qed
qed

lemma sorted_js_sort: "sorted (map value (js_sort leaf_compare xs))"
  by (induction xs) (simp_all add: js_sort_def sorted_sort_insert)

lemma values_js_sort: "map value (js_sort leaf_compare xs) = sort (map value xs)"
proof -
  have "sort (map value xs) = map value (js_sort leaf_compare xs)"
    by (rule properties_for_sort) (simp_all add: mset_js_sort sorted_js_sort)
  then show ?thesis by simp
qed

lemma root_values:
  fixes ls ls' :: "('p, 'h) leaf list"
  shows "map value ls = map value ls' \<Longrightarrow> root cmb ls = root cmb ls'"
proof -
  assume a: "map value ls = map value ls'"
  have "map (\<lambda>leaf. Node (value leaf)) xs = map Node (map value xs)" for xs :: "('p, 'h) leaf list"
    by simp
  from this [of ls] this [of ls'] a
  have "map (\<lambda>leaf. Node (value leaf)) ls = map (\<lambda>leaf. Node (value leaf)) ls'"
    by simp
  then show ?thesis by (simp add: root_def)
qed

section \<open>The level count\<close>

text \<open>
  \<open>ceil_log2 n\<close> is the least \<open>k\<close> with \<open>n \<le> 2 ^ k\<close>; for \<open>n > 0\<close> it is the ceiling of the real
  logarithm that \<^verbatim>\<open>Math.ceil(Math.log2(n))\<close> computes, and it is the number of passes of the
  reduction.
\<close>
lemma ceil_log2_from_spec:
  "k \<le> ceil_log2_from k n \<and> n \<le> 2 ^ ceil_log2_from k n \<and>
   (\<forall>j\<ge>k. n \<le> 2 ^ j \<longrightarrow> ceil_log2_from k n \<le> j)"
proof (induction k n rule: ceil_log2_from.induct)
  case (1 k n)
  show ?case
  proof (cases "n \<le> 2 ^ k")
    case True
    then show ?thesis by (subst (1 2 3) ceil_log2_from.simps) simp
  next
    case False
    have eq: "ceil_log2_from k n = ceil_log2_from (Suc k) n"
      using False by (subst ceil_log2_from.simps) simp
    from "1.IH" [OF False] have ih:
      "Suc k \<le> ceil_log2_from (Suc k) n" "n \<le> 2 ^ ceil_log2_from (Suc k) n"
      "\<forall>j\<ge>Suc k. n \<le> 2 ^ j \<longrightarrow> ceil_log2_from (Suc k) n \<le> j"
      by simp_all
    have "ceil_log2_from (Suc k) n \<le> j" if "k \<le> j" and "n \<le> 2 ^ j" for j
    proof -
      from that False have "j \<noteq> k" by auto
      with that have "Suc k \<le> j" by simp
      with ih(3) that show ?thesis by simp
    qed
    with ih show ?thesis unfolding eq by auto
  qed
qed

lemma ceil_log2_upper: "n \<le> 2 ^ ceil_log2 n"
  using ceil_log2_from_spec [of 0 n] by (simp add: ceil_log2_def)

lemma ceil_log2_least: "n \<le> 2 ^ j \<Longrightarrow> ceil_log2 n \<le> j"
  using ceil_log2_from_spec [of 0 n] by (simp add: ceil_log2_def)

lemma ceil_log2_lower: "0 < ceil_log2 n \<Longrightarrow> 2 ^ (ceil_log2 n - 1) < n"
proof (rule ccontr)
  assume pos: "0 < ceil_log2 n" and "\<not> 2 ^ (ceil_log2 n - 1) < n"
  then have "n \<le> 2 ^ (ceil_log2 n - 1)" by simp
  then have "ceil_log2 n \<le> ceil_log2 n - 1" by (rule ceil_log2_least)
  with pos show False by simp
qed

lemma ceil_log2_unique:
  assumes "n \<le> 2 ^ k" and "k = 0 \<or> 2 ^ (k - 1) < n"
  shows "ceil_log2 n = k"
proof (rule antisym)
  show "ceil_log2 n \<le> k" using assms(1) by (rule ceil_log2_least)
  show "k \<le> ceil_log2 n"
  proof (rule ccontr)
    assume "\<not> k \<le> ceil_log2 n"
    then have lt: "ceil_log2 n \<le> k - 1" and pos: "k \<noteq> 0" by simp_all
    have "n \<le> 2 ^ ceil_log2 n" by (rule ceil_log2_upper)
    also have "\<dots> \<le> (2::nat) ^ (k - 1)" using lt by (simp add: power_increasing)
    finally have "n \<le> 2 ^ (k - 1)" .
    with assms(2) pos show False by simp
  qed
qed

lemma ceil_log2_small: "n \<le> 1 \<Longrightarrow> ceil_log2 n = 0"
  by (rule ceil_log2_unique) simp_all

lemma ceil_log2_halve:
  assumes "2 \<le> n"
  shows "ceil_log2 n = Suc (ceil_log2 ((n + 1) div 2))"
proof (rule ceil_log2_unique)
  let ?m = "(n + 1) div 2"
  have "n \<le> 2 * ?m" by simp
  also have "\<dots> \<le> 2 * 2 ^ ceil_log2 ?m"
    using ceil_log2_upper [of ?m] by simp
  finally show "n \<le> 2 ^ Suc (ceil_log2 ?m)" by simp
  have "2 ^ ceil_log2 ?m < n"
  proof (cases "ceil_log2 ?m = 0")
    case True
    with assms show ?thesis by simp
  next
    case False
    then have "2 ^ (ceil_log2 ?m - 1) < ?m" using ceil_log2_lower [of ?m] by simp
    then have "2 * 2 ^ (ceil_log2 ?m - 1) + 2 \<le> n + 1" by simp
    moreover from False have "2 * 2 ^ (ceil_log2 ?m - 1) = (2::nat) ^ ceil_log2 ?m"
      by (cases "ceil_log2 ?m") simp_all
    ultimately show ?thesis by simp
  qed
  then show "Suc (ceil_log2 ?m) = 0 \<or> 2 ^ (Suc (ceil_log2 ?m) - 1) < n" by simp
qed

lemma ceil_log2_is_ceiling_log2:
  assumes "0 < n"
  shows "int (ceil_log2 n) = \<lceil>log 2 (real n)\<rceil>"
proof (rule ceiling_unique [symmetric])
  show "log 2 (real n) \<le> real_of_int (int (ceil_log2 n))"
    using ceil_log2_upper [of n] assms by (simp add: log2_of_power_le)
  show "real_of_int (int (ceil_log2 n)) - 1 < log 2 (real n)"
  proof (cases "ceil_log2 n = 0")
    case True
    have "0 \<le> log 2 (real n)" using assms by simp
    with True show ?thesis by simp
  next
    case False
    then have "2 ^ (ceil_log2 n - 1) < n" using ceil_log2_lower [of n] by simp
    then have "real (ceil_log2 n - 1) < log 2 (real n)" by (rule less_log2_of_power)
    with False show ?thesis by simp
  qed
qed

lemma root_while_steps_eq: "root_while_steps cmb nodes = ceil_log2 (length nodes)"
proof (induction cmb nodes rule: root_while_steps.induct)
  case (1 cmb nodes)
  show ?case
  proof (cases "1 < length nodes")
    case True
    then have "root_while_steps cmb nodes = Suc (root_while_steps cmb (root_for cmb nodes 0 []))"
      by (subst root_while_steps.simps) simp
    also have "\<dots> = Suc (ceil_log2 ((length nodes + 1) div 2))"
      using "1.IH" [OF True] by (simp add: length_root_for)
    also have "\<dots> = ceil_log2 (length nodes)"
      using True by (simp add: ceil_log2_halve)
    finally show ?thesis .
  next
    case False
    then show ?thesis
      by (subst root_while_steps.simps) (simp add: ceil_log2_small)
  qed
qed

lemma length_prove_loop:
  "length (prove_loop cmb merkleTreeLevel i nodes nodeProved prf)
     \<le> length prf + (merkleTreeLevel - i)"
proof (induction cmb merkleTreeLevel i nodes nodeProved "prf" rule: prove_loop.induct)
  case (1 cmb merkleTreeLevel i nodes nodeProved p)
  show ?case
  proof (cases "i < merkleTreeLevel")
    case False
    then show ?thesis by (subst prove_loop.simps) simp
  next
    case True
    show ?thesis
    proof (cases "find_sibling nodes (findIndex (\<lambda>node. node_eq node nodeProved) nodes)")
      case None
      from "1.IH"(1) [OF True refl refl refl None] True None show ?thesis
        by (subst prove_loop.simps) (simp add: Let_def)
    next
      case (Some s)
      from "1.IH"(2) [OF True refl refl refl Some] True Some show ?thesis
        by (subst prove_loop.simps) (simp add: Let_def)
    qed
  qed
qed

section \<open>The proof loop on three leaves\<close>

text \<open>
  For stored leaves \<open>[A, B, C]\<close> and the last leaf: at the bottom level the index \<open>2\<close> is even
  and has no right neighbour, so Step 2 takes \<^verbatim>\<open>nodes[provedIdx - 1]\<close>, the node of \<open>B\<close>.
  The conditions exclude collisions of the combining function only.
\<close>

lemma prove_eq_loop:
  "2 \<le> length ls \<Longrightarrow>
   prove cmb ls leaf =
     Inr (prove_loop cmb (ceil_log2 (length ls)) 0 (map (\<lambda>leaf. Node (value leaf)) ls)
            (Node (value leaf)) [])"
  by (auto simp: prove_def Let_def)

lemma prove_loop_last_of_three:
  assumes "c \<noteq> a" and "c \<noteq> b" and "cmb c b \<noteq> cmb a b" and "cmb c b \<noteq> c"
  shows "prove_loop cmb 2 0 [Node a, Node b, Node c] (Node c) [] = [Node b]"
  using assms
  by (simp add: prove_loop.simps Let_def findIndex_def node_eq_def find_sibling_def js_rem_def
      js_index_def prove_for_spec_level node_hash_def)

lemma sorted3_eq: "sorted3 (leaves tree3) = [lf 1, lf 2, lf 3]"
  by (simp add: sorted3_def tree3_def Tree_new_def heap3_def heap0_def js_sort_def
      leaf_compare_def lf_def)

lemma prove3: "prove pair_hash (sorted3 (leaves tree3)) (lf 3) = Inr [Node 2]"
proof -
  have e: "prove pair_hash [lf 1, lf 2, lf 3] (lf 3) =
             Inr (prove_loop pair_hash (ceil_log2 (length [lf 1, lf 2, lf 3 :: (unit, nat) leaf])) 0
                    (map (\<lambda>leaf. Node (value leaf)) [lf 1, lf 2, lf 3]) (Node (value (lf 3))) [])"
    by (rule prove_eq_loop) simp
  have c: "ceil_log2 (length [lf 1, lf 2, lf 3 :: (unit, nat) leaf]) = 2"
    by (simp add: ceil_log2_def ceil_log2_from.simps)
  have n: "map (\<lambda>leaf. Node (value leaf)) [lf 1, lf 2, lf 3] = [Node 1, Node 2, Node 3]"
    by (simp add: lf_def)
  have v: "Node (value (lf 3)) = Node 3"
    by (simp add: lf_def)
  have l: "prove_loop pair_hash 2 0 [Node 1, Node 2, Node 3] (Node 3) [] = [Node 2]"
    by (rule prove_loop_last_of_three) (simp_all add: pair_hash_def)
  show ?thesis
    by (simp only: sorted3_eq e c n v l)
qed

text \<open>
  For the first leaf of the same tree the siblings are the right neighbours at both
  levels, and the proof verifies, for every combining function.
\<close>

lemma prove_first_of_three:
  "prove cmb [A, B, C] A = Inr [Node (value B), Node (value C)]"
proof -
  have e: "prove cmb [A, B, C] A =
             Inr (prove_loop cmb (ceil_log2 (length [A, B, C])) 0
                    (map (\<lambda>leaf. Node (value leaf)) [A, B, C]) (Node (value A)) [])"
    by (rule prove_eq_loop) simp
  have c: "ceil_log2 (length [A, B, C]) = 2"
    by (simp add: ceil_log2_def ceil_log2_from.simps)
  have n: "map (\<lambda>leaf. Node (value leaf)) [A, B, C] = [Node (value A), Node (value B), Node (value C)]"
    by simp
  have l: "prove_loop cmb 2 0 [Node (value A), Node (value B), Node (value C)] (Node (value A)) []
          = [Node (value B), Node (value C)]"
    by (simp add: prove_loop.simps Let_def findIndex_def node_eq_def find_sibling_def js_rem_def
        js_index_def prove_for_spec_level node_hash_def)
  show ?thesis
    by (simp only: e c n l)
qed

lemma verify_first_of_three:
  "verify cmb [A, B, C] A [Node (value B), Node (value C)] = Inr True"
  by (simp add: verify_def root_eq_spec_reduce spec_reduce_three node_eq_def node_hash_def)

lemma verify_last_of_three:
  "verify cmb [A, B, C] C [Node (value B)] =
     Inr (cmb (cmb (value A) (value B)) (value C) = cmb (value C) (value B))"
  by (simp add: verify_def root_eq_spec_reduce spec_reduce_three node_eq_def node_hash_def)

section \<open>Root derivation\<close>

text \<open>
  Claim C5. The root of a tree with two or more leaves is the single node left by the
  iterated pairwise reduction of the bottom-level nodes, in which an unpaired last node
  is carried forward unchanged; for stored leaves \<open>[A, B, C]\<close> the root is
  \<open>combine (combine (Node A) (Node B)) (Node C)\<close>.
\<close>

theorem root_is_pairwise_reduction:
  assumes "2 \<le> length (\<sigma> (leaves t))"
    and "nodes = map (\<lambda>leaf. Node (value leaf)) (\<sigma> (leaves t))"
  shows "length (spec_reduce cmb nodes) = 1 \<and>
         fst (Tree_root cmb t \<sigma>) = Inr (spec_reduce cmb nodes ! 0) \<and>
         (\<forall>A B C. \<sigma> (leaves t) = [A, B, C] \<longrightarrow>
            fst (Tree_root cmb t \<sigma>) =
              Inr (node_hash cmb (node_hash cmb (Node (value A)) (Node (value B))) (Node (value C))))"
proof -
  from assms have ne: "nodes \<noteq> []" by auto
  have one: "length (spec_reduce cmb nodes) = 1"
    using ne by (rule length_spec_reduce)
  have r: "fst (Tree_root cmb t \<sigma>) = Inr (spec_reduce cmb nodes ! 0)"
    using assms by (simp add: Tree_root_def root_eq_spec_reduce)
  have "fst (Tree_root cmb t \<sigma>) =
          Inr (node_hash cmb (node_hash cmb (Node (value A)) (Node (value B))) (Node (value C)))"
    if "\<sigma> (leaves t) = [A, B, C]" for A B C
    using that r assms(2) by (simp add: spec_reduce_three)
  with one r show ?thesis by blast
qed

theorem root_is_pairwise_reduction_witness:
  "2 \<le> length (heap3 (leaves \<lparr>leaves = 0\<rparr>)) \<and>
   fst (Tree_root pair_hash \<lparr>leaves = 0\<rparr> heap3) = Inr (Node 69)"
  using root_is_pairwise_reduction [of heap3 "\<lparr>leaves = 0\<rparr>" _ pair_hash, OF _ refl]
  by (simp add: heap3_def heap0_def lf_def pair_hash_def node_hash_def spec_reduce_three)

section \<open>The empty tree\<close>

text \<open>
  Claim C6. \<^verbatim>\<open>root\<close> and \<^verbatim>\<open>prove\<close> fail exactly when the stored leaf sequence has no
  element, each with its own \<^verbatim>\<open>Error\<close>; neither writes to the heap, so the tree is
  unchanged; constructing a tree over an empty array is accepted and returns a tree.
\<close>

theorem empty_tree_errors:
  fixes cmb :: "'h \<Rightarrow> 'h \<Rightarrow> 'h" and \<sigma> :: "('p, 'h) heap"
  shows
  "(fst (Tree_root cmb t \<sigma>) = Inl (Error ''Cannot generate merkle root from empty tree.'')) = (\<sigma> (leaves t) = []) \<and>
   (fst (Tree_prove cmb t leaf \<sigma>) = Inl (Error ''Cannot find prove from empty tree!'')) = (\<sigma> (leaves t) = []) \<and>
   isl (fst (Tree_root cmb t \<sigma>)) = (\<sigma> (leaves t) = []) \<and>
   isl (fst (Tree_prove cmb t leaf \<sigma>)) = (\<sigma> (leaves t) = []) \<and>
   snd (Tree_root cmb t \<sigma>) = \<sigma> \<and>
   snd (Tree_prove cmb t leaf \<sigma>) = \<sigma> \<and>
   Tree_new gte a (\<sigma>(a := [])) = (\<lparr>leaves = a\<rparr>, \<sigma>(a := []))"
proof -
  have r: "isl (root cmb ls) = (ls = [])" for ls :: "('p, 'h) leaf list"
    by (simp add: root_def Let_def)
  have p: "isl (prove cmb ls leaf) = (ls = [])" for ls :: "('p, 'h) leaf list"
    by (simp add: prove_def Let_def)
  show ?thesis
    by (simp add: Tree_root_def Tree_prove_def Tree_new_def js_sort_def root_empty_iff
        prove_empty_iff r p)
qed

section \<open>The single-leaf tree\<close>

text \<open>
  Claim C7. For a tree constructed from exactly one leaf \<open>L\<close>, with any comparator:
  the root is \<open>Node (value L)\<close>, the proof of \<open>L\<close> is empty, and verifying \<open>L\<close> against the
  empty proof returns true.
\<close>

theorem single_leaf_tree:
  assumes "\<sigma> a = [L]" and "Tree_new gte a \<sigma> = (T, \<sigma>')"
  shows "fst (Tree_root cmb T \<sigma>') = Inr (Node (value L)) \<and>
         fst (Tree_prove cmb T L \<sigma>') = Inr [] \<and>
         fst (Tree_verify cmb T L [] \<sigma>') = Inr True"
proof -
  from assms have "\<sigma>' (leaves T) = [L]"
    by (auto simp: Tree_new_def js_sort_def)
  then show ?thesis
    by (simp add: Tree_root_def Tree_prove_def Tree_verify_def root_def prove_def verify_def
        node_eq_def)
qed

theorem single_leaf_tree_witness:
  "heap1 0 = [lf 5] \<and>
   fst (Tree_root pair_hash (fst (Tree_new leaf_compare 0 heap1)) (snd (Tree_new leaf_compare 0 heap1)))
     = Inr (Node 5) \<and>
   fst (Tree_prove pair_hash (fst (Tree_new leaf_compare 0 heap1)) (lf 5) (snd (Tree_new leaf_compare 0 heap1)))
     = Inr [] \<and>
   fst (Tree_verify pair_hash (fst (Tree_new leaf_compare 0 heap1)) (lf 5) [] (snd (Tree_new leaf_compare 0 heap1)))
     = Inr True"
proof -
  have h: "heap1 0 = [lf 5]" by (simp add: heap1_def)
  from single_leaf_tree [of heap1 0 "lf 5" leaf_compare "fst (Tree_new leaf_compare 0 heap1)"
      "snd (Tree_new leaf_compare 0 heap1)" pair_hash] h
  show ?thesis by (simp add: lf_def)
qed

section \<open>Verification\<close>

text \<open>
  Claim C4 as stated: \<^verbatim>\<open>verify\<close> never fails, also on a tree constructed from an empty
  leaf list. It fails there: \<^verbatim>\<open>verify\<close> reads the getter \<^verbatim>\<open>root\<close>, which throws on
  an empty tree.
\<close>

theorem verify_fails_on_empty_tree:
  "fst (Tree_verify pair_hash (fst (Tree_new leaf_compare 0 heap0)) (lf 1) []
         (snd (Tree_new leaf_compare 0 heap0)))
   = Inl (Error ''Cannot generate merkle root from empty tree.'')"
  by (simp add: Tree_verify_def Tree_new_def heap0_def js_sort_def verify_def root_def)

text \<open>
  Claim C4, amended. On a tree with at least one leaf \<^verbatim>\<open>verify\<close> returns a boolean: true
  iff folding \<open>combine\<close> over the proof entries, starting from the candidate leaf's node,
  gives the root, and false on any mismatch. On a tree with no leaf it fails with the
  error of \<^verbatim>\<open>root\<close>. In both cases the heap is unchanged.
\<close>

theorem verify_result:
  fixes cmb :: "'h \<Rightarrow> 'h \<Rightarrow> 'h" and \<sigma> :: "('p, 'h) heap"
  shows
  "(\<sigma> (leaves t) \<noteq> [] \<longrightarrow>
      (\<exists>r. fst (Tree_root cmb t \<sigma>) = Inr r \<and>
           fst (Tree_verify cmb t leaf prf \<sigma>) =
             Inr (foldl (node_hash cmb) (Node (value leaf)) prf = r))) \<and>
   (\<sigma> (leaves t) = [] \<longrightarrow>
      fst (Tree_verify cmb t leaf prf \<sigma>) =
        Inl (Error ''Cannot generate merkle root from empty tree.'')) \<and>
   snd (Tree_verify cmb t leaf prf \<sigma>) = \<sigma>"
proof -
  have "\<exists>r. root cmb ls = Inr r \<and>
            verify cmb ls leaf prf = Inr (foldl (node_hash cmb) (Node (value leaf)) prf = r)"
    if "ls \<noteq> []" for ls :: "('p, 'h) leaf list"
  proof (cases "root cmb ls")
    case (Inl e)
    with that show ?thesis by (simp add: root_empty_iff)
  next
    case (Inr r)
    then show ?thesis
      by (auto simp: verify_def Let_def node_eq_iff verify_for_foldl)
  qed
  moreover have "verify cmb [] leaf prf = Inl (Error ''Cannot generate merkle root from empty tree.'')"
    by (simp add: verify_def root_def)
  ultimately show ?thesis
    by (simp add: Tree_root_def Tree_verify_def)
qed

theorem verify_result_witness:
  "heap3 (leaves \<lparr>leaves = 0\<rparr>) \<noteq> [] \<and>
   fst (Tree_verify pair_hash \<lparr>leaves = 0\<rparr> (lf 1) [Node 2, Node 3] heap3) = Inr True \<and>
   fst (Tree_verify pair_hash \<lparr>leaves = 0\<rparr> (lf 1) [Node 2, Node 4] heap3) = Inr False \<and>
   heap0 (leaves \<lparr>leaves = 0\<rparr>) = [] \<and>
   fst (Tree_verify pair_hash \<lparr>leaves = 0\<rparr> (lf 1) [Node 2] heap0) =
     Inl (Error ''Cannot generate merkle root from empty tree.'')"
proof -
  have ne: "heap3 (leaves \<lparr>leaves = 0\<rparr>) \<noteq> []" by (simp add: heap3_def heap0_def)
  have e: "heap0 (leaves \<lparr>leaves = 0\<rparr>) = []" by (simp add: heap0_def)
  have r: "fst (Tree_root pair_hash \<lparr>leaves = 0\<rparr> heap3) = Inr (Node 69)"
    by (simp add: Tree_root_def heap3_def heap0_def root_eq_spec_reduce spec_reduce_three lf_def
        node_hash_def pair_hash_def)
  from verify_result [of heap3 "\<lparr>leaves = 0\<rparr>" pair_hash "lf 1" "[Node 2, Node 3]"] ne r
  have a: "fst (Tree_verify pair_hash \<lparr>leaves = 0\<rparr> (lf 1) [Node 2, Node 3] heap3) = Inr True"
    by (simp add: lf_def node_hash_def pair_hash_def)
  from verify_result [of heap3 "\<lparr>leaves = 0\<rparr>" pair_hash "lf 1" "[Node 2, Node 4]"] ne r
  have b: "fst (Tree_verify pair_hash \<lparr>leaves = 0\<rparr> (lf 1) [Node 2, Node 4] heap3) = Inr False"
    by (simp add: lf_def node_hash_def pair_hash_def)
  from verify_result [of heap0 "\<lparr>leaves = 0\<rparr>" pair_hash "lf 1" "[Node 2]"] e
  have c: "fst (Tree_verify pair_hash \<lparr>leaves = 0\<rparr> (lf 1) [Node 2] heap0) =
     Inl (Error ''Cannot generate merkle root from empty tree.'')"
    by simp
  from ne e a b c show ?thesis by simp
qed

section \<open>Construction\<close>

text \<open>
  Claim C3. With the three-way leaf comparison of the spec as the sort key, two input
  arrays that are permutations of each other give trees with equal roots; construction
  leaves the stored leaves sorted ascending by value and keeps their multiset.
\<close>

theorem root_independent_of_input_order:
  fixes cmb :: "'h::linorder \<Rightarrow> 'h \<Rightarrow> 'h" and \<sigma>1 \<sigma>2 :: "('p, 'h) heap"
  assumes "mset (\<sigma>1 a1) = mset (\<sigma>2 a2)"
    and "Tree_new leaf_compare a1 \<sigma>1 = (T1, \<sigma>1')"
    and "Tree_new leaf_compare a2 \<sigma>2 = (T2, \<sigma>2')"
  shows "fst (Tree_root cmb T1 \<sigma>1') = fst (Tree_root cmb T2 \<sigma>2') \<and>
         sorted (map value (\<sigma>1' (leaves T1))) \<and>
         mset (\<sigma>1' (leaves T1)) = mset (\<sigma>1 a1)"
proof -
  from assms(2) have s1: "\<sigma>1' (leaves T1) = js_sort leaf_compare (\<sigma>1 a1)"
    by (auto simp: Tree_new_def)
  from assms(3) have s2: "\<sigma>2' (leaves T2) = js_sort leaf_compare (\<sigma>2 a2)"
    by (auto simp: Tree_new_def)
  from assms(1) have "mset (map value (\<sigma>1 a1)) = mset (map value (\<sigma>2 a2))"
    by (metis mset_map)
  then have "sort (map value (\<sigma>1 a1)) = sort (map value (\<sigma>2 a2))"
    by (simp add: properties_for_sort)
  then have "map value (\<sigma>1' (leaves T1)) = map value (\<sigma>2' (leaves T2))"
    by (simp add: s1 s2 values_js_sort)
  then have "root cmb (\<sigma>1' (leaves T1)) = root cmb (\<sigma>2' (leaves T2))"
    by (rule root_values)
  then show ?thesis
    by (simp add: Tree_root_def s1 sorted_js_sort mset_js_sort)
qed

theorem root_independent_of_input_order_witness:
  "mset (heap3 0) = mset (heap_unsorted 0) \<and>
   fst (Tree_root pair_hash (fst (Tree_new leaf_compare 0 heap3)) (snd (Tree_new leaf_compare 0 heap3)))
     = Inr (Node 69) \<and>
   fst (Tree_root pair_hash (fst (Tree_new leaf_compare 0 heap_unsorted))
         (snd (Tree_new leaf_compare 0 heap_unsorted)))
     = Inr (Node 69)"
proof -
  have m: "mset (heap3 0) = mset (heap_unsorted 0)"
    by (simp add: heap3_def heap_unsorted_def)
  have r: "fst (Tree_root pair_hash (fst (Tree_new leaf_compare 0 heap3))
                 (snd (Tree_new leaf_compare 0 heap3))) = Inr (Node 69)"
    by (simp add: Tree_new_def Tree_root_def heap3_def heap0_def js_sort_def leaf_compare_def
        lf_def root_eq_spec_reduce spec_reduce_three node_hash_def pair_hash_def)
  from root_independent_of_input_order [of heap3 0 heap_unsorted 0
      "fst (Tree_new leaf_compare 0 heap3)" "snd (Tree_new leaf_compare 0 heap3)"
      "fst (Tree_new leaf_compare 0 heap_unsorted)" "snd (Tree_new leaf_compare 0 heap_unsorted)"
      pair_hash] m r
  show ?thesis by simp
qed

text \<open>
  Claim C10. The constructor sorts the array it is given in place, for any comparator:
  the tree's \<^verbatim>\<open>leaves\<close> field is the address of the caller's array, that array holds the
  sorted contents afterwards, with the same multiset of leaves, and no other array changes.
\<close>

theorem constructor_sorts_argument_in_place:
  fixes \<sigma> :: "('p, 'h) heap"
  assumes "Tree_new gte ls \<sigma> = (T, \<sigma>')"
  shows "leaves T = ls \<and>
         \<sigma>' ls = js_sort gte (\<sigma> ls) \<and>
         mset (\<sigma>' (leaves T)) = mset (\<sigma> ls) \<and>
         (\<forall>a. a \<noteq> ls \<longrightarrow> \<sigma>' a = \<sigma> a)"
  using assms by (auto simp: Tree_new_def mset_js_sort)

theorem constructor_sorts_argument_in_place_witness:
  "leaves (fst (Tree_new leaf_compare 0 heap_unsorted)) = 0 \<and>
   heap_unsorted 0 = [lf 3, lf 1, lf 2] \<and>
   snd (Tree_new leaf_compare 0 heap_unsorted) 0 = [lf 1, lf 2, lf 3] \<and>
   mset (snd (Tree_new leaf_compare 0 heap_unsorted) 0) = mset (heap_unsorted 0) \<and>
   snd (Tree_new leaf_compare 0 heap_unsorted) 1 = heap_unsorted 1"
proof -
  have s: "js_sort leaf_compare (heap_unsorted 0) = [lf 1, lf 2, lf 3]"
    by (simp add: heap_unsorted_def js_sort_def leaf_compare_def lf_def)
  from constructor_sorts_argument_in_place [of leaf_compare 0 heap_unsorted
      "fst (Tree_new leaf_compare 0 heap_unsorted)" "snd (Tree_new leaf_compare 0 heap_unsorted)"] s
  show ?thesis by (simp add: heap_unsorted_def)
qed

section \<open>Proof generation\<close>

text \<open>
  Claim C9. On a tree with at least one leaf, \<^verbatim>\<open>prove\<close> returns a sequence of nodes for
  every argument leaf, present in the tree or not, and leaves the heap unchanged; the
  sequence has at most \<open>ceil_log2 n\<close> entries.
\<close>

theorem prove_never_faults:
  fixes cmb :: "'h \<Rightarrow> 'h \<Rightarrow> 'h" and \<sigma> :: "('p, 'h) heap"
  assumes "\<sigma> (leaves t) \<noteq> []"
  shows "\<exists>p. Tree_prove cmb t leaf \<sigma> = (Inr p, \<sigma>) \<and>
             length p \<le> ceil_log2 (length (\<sigma> (leaves t)))"
proof (cases "length (\<sigma> (leaves t)) = 1")
  case True
  with assms show ?thesis by (simp add: Tree_prove_def prove_def Let_def)
next
  case False
  moreover from assms have "length (\<sigma> (leaves t)) \<noteq> 0" by simp
  ultimately have "2 \<le> length (\<sigma> (leaves t))" by linarith
  then show ?thesis
    using length_prove_loop [of cmb "ceil_log2 (length (\<sigma> (leaves t)))" 0 _ _ "[]"]
    by (simp add: Tree_prove_def prove_eq_loop)
qed

theorem prove_never_faults_witness:
  "heap3 (leaves \<lparr>leaves = 0\<rparr>) \<noteq> [] \<and>
   lf 9 \<notin> set (heap3 (leaves \<lparr>leaves = 0\<rparr>)) \<and>
   Tree_prove pair_hash \<lparr>leaves = 0\<rparr> (lf 9) heap3 = (Inr [], heap3)"
proof -
  have h: "heap3 (leaves \<lparr>leaves = 0\<rparr>) = [lf 1, lf 2, lf 3]"
    by (simp add: heap3_def)
  have ne: "heap3 (leaves \<lparr>leaves = 0\<rparr>) \<noteq> []"
    unfolding h by simp
  have a: "lf 9 \<notin> set (heap3 (leaves \<lparr>leaves = 0\<rparr>))"
    unfolding h by (simp add: lf_def)
  have e: "prove pair_hash [lf 1, lf 2, lf 3] (lf 9) =
             Inr (prove_loop pair_hash (ceil_log2 (length [lf 1, lf 2, lf 3 :: (unit, nat) leaf])) 0
                    (map (\<lambda>leaf. Node (value leaf)) [lf 1, lf 2, lf 3]) (Node (value (lf 9))) [])"
    by (rule prove_eq_loop) simp
  have c: "ceil_log2 (length [lf 1, lf 2, lf 3 :: (unit, nat) leaf]) = 2"
    by (simp add: ceil_log2_def ceil_log2_from.simps)
  have n: "map (\<lambda>leaf. Node (value leaf)) [lf 1, lf 2, lf 3] = [Node 1, Node 2, Node 3]"
    by (simp add: lf_def)
  have v: "Node (value (lf 9)) = Node 9"
    by (simp add: lf_def)
  have l: "prove_loop pair_hash 2 0 [Node 1, Node 2, Node 3] (Node 9) [] = []"
    by (simp add: prove_loop.simps Let_def findIndex_def node_eq_def find_sibling_def js_rem_def
        js_index_def prove_for_spec_level node_hash_def pair_hash_def)
  have p: "prove pair_hash (heap3 (leaves \<lparr>leaves = 0\<rparr>)) (lf 9) = Inr []"
    by (simp only: h e c n v l)
  from prove_never_faults [of heap3 "\<lparr>leaves = 0\<rparr>" pair_hash "lf 9"] ne p
  have "Tree_prove pair_hash \<lparr>leaves = 0\<rparr> (lf 9) heap3 = (Inr [], heap3)"
    unfolding Tree_prove_def by simp
  with ne a show ?thesis by (intro conjI)
qed

text \<open>
  Claim C1 says that verifying the proof generated for a leaf of the tree succeeds. For
  the tree over \<open>[lf 1, lf 2, lf 3]\<close> and its leaf \<open>lf 3\<close>, \<^verbatim>\<open>prove\<close> returns \<open>[Node 2]\<close>
  and \<^verbatim>\<open>verify\<close> of that proof returns false.
\<close>

theorem roundtrip_fails_for_carried_leaf:
  "lf 3 \<in> set (sorted3 (leaves tree3)) \<and>
   fst (Tree_prove pair_hash tree3 (lf 3) sorted3) = Inr [Node 2] \<and>
   fst (Tree_verify pair_hash tree3 (lf 3) [Node 2] sorted3) = Inr False"
proof -
  have m: "lf 3 \<in> set (sorted3 (leaves tree3))"
    by (simp add: sorted3_eq)
  have v: "verify pair_hash (sorted3 (leaves tree3)) (lf 3) [Node 2] = Inr False"
    by (simp add: sorted3_eq verify_def root_eq_spec_reduce spec_reduce_three node_eq_def
        node_hash_def pair_hash_def lf_def)
  from m prove3 v show ?thesis
    unfolding Tree_prove_def Tree_verify_def fst_conv by (intro conjI)
qed

text \<open>
  Claim C2 says that a node carried up unpaired contributes no entry for that level, so
  that for stored leaves \<open>[A, B, C]\<close> the proof of \<open>C\<close> is \<open>[combine (Node A) (Node B)]\<close>.
  For the tree over \<open>[lf 1, lf 2, lf 3]\<close> the proof of \<open>lf 3\<close> is the single entry
  \<open>Node (value (lf 2))\<close>, recorded at the level where \<open>lf 3\<close> is carried up.
\<close>

theorem carried_leaf_records_left_neighbour:
  "sorted3 (leaves tree3) = [lf 1, lf 2, lf 3] \<and>
   fst (Tree_prove pair_hash tree3 (lf 3) sorted3) = Inr [Node (value (lf 2))] \<and>
   fst (Tree_prove pair_hash tree3 (lf 3) sorted3) \<noteq>
     Inr [node_hash pair_hash (Node (value (lf 1))) (Node (value (lf 2)))]"
proof -
  have p: "fst (Tree_prove pair_hash tree3 (lf 3) sorted3) = Inr [Node 2]"
    unfolding Tree_prove_def fst_conv by (rule prove3)
  show ?thesis
    unfolding p by (simp add: sorted3_eq node_hash_def pair_hash_def lf_def)
qed

text \<open>
  Claim C8 says that the length of a proof is the number of levels at which the leaf's
  node had a pairing partner. In the tree over the seven leaves \<open>lf 1, \<dots>, lf 7\<close> the last
  leaf, at position \<open>6\<close>, has a partner at two levels, and its proof has one entry.
\<close>

theorem proof_length_misses_pairing_levels:
  "length (sorted7 (leaves tree7)) = 7 \<and>
   sorted7 (leaves tree7) ! 6 = lf 7 \<and>
   fst (Tree_prove pair_hash tree7 (lf 7) sorted7) = Inr [Node 6] \<and>
   length [Node (6::nat)] = 1 \<and>
   paired_levels 7 6 = 2"
proof -
  have h: "sorted7 (leaves tree7) = [lf 1, lf 2, lf 3, lf 4, lf 5, lf 6, lf 7]"
    by (simp add: sorted7_def tree7_def Tree_new_def heap7_def heap0_def js_sort_def
        leaf_compare_def lf_def)
  have e: "prove pair_hash [lf 1, lf 2, lf 3, lf 4, lf 5, lf 6, lf 7] (lf 7) =
             Inr (prove_loop pair_hash
                    (ceil_log2 (length [lf 1, lf 2, lf 3, lf 4, lf 5, lf 6, lf 7 :: (unit, nat) leaf])) 0
                    (map (\<lambda>leaf. Node (value leaf)) [lf 1, lf 2, lf 3, lf 4, lf 5, lf 6, lf 7])
                    (Node (value (lf 7))) [])"
    by (rule prove_eq_loop) simp
  have c: "ceil_log2 (length [lf 1, lf 2, lf 3, lf 4, lf 5, lf 6, lf 7 :: (unit, nat) leaf]) = 3"
    by (simp add: ceil_log2_def ceil_log2_from.simps)
  have m: "map (\<lambda>leaf. Node (value leaf)) [lf 1, lf 2, lf 3, lf 4, lf 5, lf 6, lf 7] =
           [Node 1, Node 2, Node 3, Node 4, Node 5, Node 6, Node 7]"
    by (simp add: lf_def)
  have v: "Node (value (lf 7)) = Node 7"
    by (simp add: lf_def)
  have q: "prove_loop pair_hash 3 0 [Node 1, Node 2, Node 3, Node 4, Node 5, Node 6, Node 7]
             (Node 7) [] = [Node 6]"
    by (simp add: prove_loop.simps Let_def findIndex_def node_eq_def find_sibling_def js_rem_def
        js_index_def prove_for_spec_level node_hash_def pair_hash_def)
  have p: "prove pair_hash (sorted7 (leaves tree7)) (lf 7) = Inr [Node 6]"
    by (simp only: h e c m v q)
  have n: "paired_levels 7 6 = 2"
    by (simp add: paired_levels.simps)
  have l: "length (sorted7 (leaves tree7)) = 7"
    unfolding h by simp
  have i: "sorted7 (leaves tree7) ! 6 = lf 7"
    unfolding h by simp
  have o: "length [Node (6::nat)] = 1"
    by simp
  from l i p o n show ?thesis
    unfolding Tree_prove_def fst_conv by (intro conjI)
qed

end
